theory Spec2Isabelle
  imports
    Complex_Main
    "HOL-Library.Multiset"
    "HOL-Library.Sublist"
    "HOL-Library.Char_ord"
    "HOL-Library.List_Lexorder"
    "HOL-Library.Word"
begin

section \<open>SkyNotes: the note store of src/app/page.tsx\<close>

text \<open>
  The page component keeps three pieces of state (\<^verbatim>\<open>notes\<close>, \<^verbatim>\<open>searchTerm\<close>,
  \<^verbatim>\<open>activeId\<close>) and mutates them through \<^verbatim>\<open>createNote\<close>, \<^verbatim>\<open>updateNote\<close>,
  \<^verbatim>\<open>deleteNote\<close>, \<^verbatim>\<open>duplicateNote\<close> and \<^verbatim>\<open>setActiveId\<close>. Every handler runs to
  completion before the next event, so each one is a function from the state before the
  event to the state after it. The strings of the store are HOL strings, a character
  standing for a code unit in the range 0..255; the view derivation is stated for every type
  of code units. What a handler reads from its environment (the clock, the id generator, the
  random number generator) is an explicit argument.
\<close>

subsection \<open>Data model\<close>

text \<open>
  \<^verbatim>\<open>interface Note\<close>, lines 5-13, over strings of code units of type \<open>'c\<close>. The
  field \<^verbatim>\<open>id\<close> is named \<open>id_note\<close>.
\<close>

record 'c Note =
  id_note :: "'c list"
  title :: "'c list"
  content :: "'c list"
  createdAt :: "'c list"
  updatedAt :: "'c list"
  pinned :: bool
  color :: "'c list"

text \<open>The three \<^verbatim>\<open>useState\<close> cells of \<^verbatim>\<open>Page\<close>, lines 57-59; \<^verbatim>\<open>null\<close> is \<open>None\<close>.
  The cell \<^verbatim>\<open>notes\<close> is named \<open>notes_st\<close>.\<close>

record state =
  notes_st :: "char Note list"
  searchTerm :: string
  activeId :: "string option"

text \<open>
  What a handler reads from outside the store: \<^verbatim>\<open>new Date().toISOString()\<close>,
  the result of \<^verbatim>\<open>createId()\<close> and the result of \<^verbatim>\<open>Math.random()\<close>.
\<close>

record env =
  now :: string
  newId :: string
  rnd :: real

text \<open>The argument of \<^verbatim>\<open>updateNote\<close>: each of the four fields may be absent.\<close>

record payload =
  p_title :: "string option"
  p_content :: "string option"
  p_pinned :: "bool option"
  p_color :: "string option"

definition palettes :: "string list" where
  "palettes =
    [''from-sky-400/80 via-sky-500/50 to-blue-900/20'',
     ''from-purple-400/90 via-indigo-500/50 to-slate-900/20'',
     ''from-rose-400/80 via-pink-500/40 to-fuchsia-900/20'',
     ''from-emerald-400/80 via-teal-500/40 to-slate-900/20'']"

subsection \<open>Store operations\<close>

text \<open>
  \<^verbatim>\<open>createNote\<close>, lines 89-102. \<^verbatim>\<open>Math.random()\<close> is in \<open>[0, 1)\<close>, so the index
  \<^verbatim>\<open>Math.floor(Math.random() * palettes.length)\<close> is below \<^verbatim>\<open>palettes.length\<close>.
\<close>

definition createNote :: "env \<Rightarrow> state \<Rightarrow> state" where
  "createNote e s =
    (let newNote = \<lparr> id_note = newId e,
                      title = ''Untitled'',
                      content = '''',
                      createdAt = now e,
                      updatedAt = now e,
                      pinned = False,
                      color = palettes ! nat \<lfloor>rnd e * real (length palettes)\<rfloor> \<rparr>
     in s\<lparr> notes_st := newNote # notes_st s, activeId := Some (id_note newNote) \<rparr>)"

text \<open>The object spread \<^verbatim>\<open>{...note, ...payload, updatedAt: ...}\<close> of lines 108-112.\<close>

definition merge_payload :: "string \<Rightarrow> payload \<Rightarrow> char Note \<Rightarrow> char Note" where
  "merge_payload t p n =
    n\<lparr> title := (case p_title p of None \<Rightarrow> title n | Some v \<Rightarrow> v),
       content := (case p_content p of None \<Rightarrow> content n | Some v \<Rightarrow> v),
       pinned := (case p_pinned p of None \<Rightarrow> pinned n | Some v \<Rightarrow> v),
       color := (case p_color p of None \<Rightarrow> color n | Some v \<Rightarrow> v),
       updatedAt := t \<rparr>"

text \<open>\<^verbatim>\<open>updateNote\<close>, lines 104-116; the first argument is the clock reading.\<close>

definition updateNote :: "string \<Rightarrow> string \<Rightarrow> payload \<Rightarrow> state \<Rightarrow> state" where
  "updateNote t i p s =
    s\<lparr> notes_st := map (\<lambda>n. if id_note n = i then merge_payload t p n else n) (notes_st s) \<rparr>"

text \<open>\<^verbatim>\<open>deleteNote\<close>, lines 118-126.\<close>

definition deleteNote :: "string \<Rightarrow> state \<Rightarrow> state" where
  "deleteNote i s =
    (let filtered = filter (\<lambda>n. id_note n \<noteq> i) (notes_st s)
     in if activeId s = Some i
        then s\<lparr> notes_st := filtered,
                activeId := (case filtered of [] \<Rightarrow> None | n # _ \<Rightarrow> Some (id_note n)) \<rparr>
        else s\<lparr> notes_st := filtered \<rparr>)"

text \<open>\<^verbatim>\<open>duplicateNote\<close>, lines 128-141.\<close>

definition duplicateNote :: "env \<Rightarrow> string \<Rightarrow> state \<Rightarrow> state" where
  "duplicateNote e i s =
    (case find (\<lambda>n. id_note n = i) (notes_st s) of
       None \<Rightarrow> s
     | Some target \<Rightarrow>
         (let copy = target\<lparr> id_note := newId e,
                             title := title target @ '' (Copy)'',
                             createdAt := now e,
                             updatedAt := now e \<rparr>
          in s\<lparr> notes_st := copy # notes_st s, activeId := Some (id_note copy) \<rparr>))"

text \<open>Selecting a note in the list: \<^verbatim>\<open>onClick={() => setActiveId(note.id)}\<close>, line 190.\<close>

definition selectNote :: "string \<Rightarrow> state \<Rightarrow> state" where
  "selectNote i s = s\<lparr> activeId := Some i \<rparr>"

subsection \<open>View derivation\<close>

text \<open>
  The view calls three functions of the JavaScript platform on strings:
  \<^verbatim>\<open>String.prototype.toLowerCase\<close>, \<^verbatim>\<open>String.prototype.trim\<close> and
  \<^verbatim>\<open>String.prototype.localeCompare\<close>. What they return depends on the Unicode tables
  and on the locale of the browser, so the view takes them as an argument, and takes any type
  of code units for the characters of a note (with 16-bit words these are the strings of
  JavaScript). \<open>toLowerCase\<close> need not keep the length of a string, and \<open>localeCompare\<close>
  need not be the order of the code units.
\<close>

record 'c platform =
  toLowerCase :: "'c list \<Rightarrow> 'c list"
  trim :: "'c list \<Rightarrow> 'c list"
  localeCompare :: "'c list \<Rightarrow> 'c list \<Rightarrow> int"

text \<open>\<^verbatim>\<open>hay.includes(needle)\<close>: the needle starts at some position of the haystack
  (named \<open>includes_str\<close> here).\<close>

fun includes_str :: "'c list \<Rightarrow> 'c list \<Rightarrow> bool" where
  "includes_str [] needle = (needle = [])"
| "includes_str (c # cs) needle = (prefix needle (c # cs) \<or> includes_str cs needle)"

text \<open>\<^verbatim>\<open>Number(b)\<close> on a boolean.\<close>

definition Number :: "bool \<Rightarrow> int" where
  "Number b = (if b then 1 else 0)"

text \<open>The comparator of lines 78 and 86; \<^verbatim>\<open>x || y\<close> is \<open>y\<close> when \<open>x\<close> is 0.\<close>

definition compareNotes :: "'c platform \<Rightarrow> 'c Note \<Rightarrow> 'c Note \<Rightarrow> int" where
  "compareNotes P a b =
    (let d = Number (pinned b) - Number (pinned a)
     in if d \<noteq> 0 then d else localeCompare P (updatedAt b) (updatedAt a))"

text \<open>
  \<^verbatim>\<open>Array.prototype.sort(cmp)\<close> is a stable sort: an element goes before the first
  one it does not compare greater than. With a comparator that orders the elements
  consistently the result of a stable sort is determined, so that every implementation
  returns what this one returns.
\<close>

fun insort_by :: "('a \<Rightarrow> 'a \<Rightarrow> int) \<Rightarrow> 'a \<Rightarrow> 'a list \<Rightarrow> 'a list" where
  "insort_by cmp x [] = [x]"
| "insort_by cmp x (y # ys) = (if cmp x y \<le> 0 then x # y # ys else y # insort_by cmp x ys)"

definition array_sort :: "('a \<Rightarrow> 'a \<Rightarrow> int) \<Rightarrow> 'a list \<Rightarrow> 'a list" where
  "array_sort cmp xs = foldr (insort_by cmp) xs []"

text \<open>
  \<^verbatim>\<open>filteredNotes\<close>, lines 76-87, as a function of the platform and of its two
  dependencies, the notes and the search term.
\<close>

definition filteredNotes :: "'c platform \<Rightarrow> 'c Note list \<Rightarrow> 'c list \<Rightarrow> 'c Note list" where
  "filteredNotes P ns st =
    (if trim P st = [] then array_sort (compareNotes P) ns
     else
       (let tm = toLowerCase P st
        in array_sort (compareNotes P)
             (filter (\<lambda>n. includes_str (toLowerCase P (title n)) tm \<or>
                          includes_str (toLowerCase P (content n)) tm) ns)))"

text \<open>
  The specification's words. A text contains a term as a case-insensitive substring when
  the term, in lower case, is a stretch of the text, in lower case.
\<close>

definition ci_substring :: "'c platform \<Rightarrow> 'c list \<Rightarrow> 'c list \<Rightarrow> bool" where
  "ci_substring P needle hay =
    (\<exists>pre suf. toLowerCase P hay = pre @ toLowerCase P needle @ suf)"

text \<open>
  Display order: pinned notes first, then the later \<open>updatedAt\<close> first, later in the order
  in which \<open>localeCompare\<close> puts the strings.
\<close>

definition display_before :: "'c platform \<Rightarrow> 'c Note \<Rightarrow> 'c Note \<Rightarrow> bool" where
  "display_before P a b =
    ((pinned a \<and> \<not> pinned b) \<or>
     (pinned a = pinned b \<and> localeCompare P (updatedAt b) (updatedAt a) \<le> 0))"

text \<open>
  A comparison is consistent when of two values one is not after the other, and not being
  after is transitive. A collation, which compares the sort keys of two strings, is
  consistent, whatever the locale.
\<close>

definition consistent_compare :: "('a \<Rightarrow> 'a \<Rightarrow> int) \<Rightarrow> bool" where
  "consistent_compare cmp \<longleftrightarrow>
    (\<forall>a b. cmp a b \<le> 0 \<or> cmp b a \<le> 0) \<and>
    (\<forall>a b c. cmp a b \<le> 0 \<and> cmp b c \<le> 0 \<longrightarrow> cmp a c \<le> 0)"

subsection \<open>Two platforms\<close>

text \<open>
  A platform on 8-bit text, with a HOL character for a code unit in the range 0..255. On that
  range \<^verbatim>\<open>toLowerCase\<close> moves the letters A-Z and the upper-case letters of the block
  192..222 (all of it but the multiplication sign 215) up by 32 and leaves every other code
  unit as it is, and \<^verbatim>\<open>trim\<close> strips tab, line feed, vertical tab, form feed,
  carriage return, space and the no-break space from both ends. The collation is the order of
  the code units; it is the order in which \<^verbatim>\<open>localeCompare\<close> puts the timestamps that
  \<^verbatim>\<open>toISOString\<close> writes for the years 0 to 9999, which have one layout of 24
  characters, and not its order on other strings.
\<close>

definition lower_char :: "char \<Rightarrow> char" where
  "lower_char c =
    (let k = (of_char c :: nat)
     in if (65 \<le> k \<and> k \<le> 90) \<or> (192 \<le> k \<and> k \<le> 222 \<and> k \<noteq> 215)
        then char_of (k + 32) else c)"

definition isWhiteSpace :: "char \<Rightarrow> bool" where
  "isWhiteSpace c = ((of_char c :: nat) \<in> {9, 10, 11, 12, 13, 32, 160})"

definition compare_units :: "'c::linorder list \<Rightarrow> 'c list \<Rightarrow> int" where
  "compare_units a b = (if a < b then - 1 else if b < a then 1 else 0)"

definition latin1 :: "char platform" where
  "latin1 =
    \<lparr> toLowerCase = map lower_char,
      trim = (\<lambda>s. rev (dropWhile isWhiteSpace (rev (dropWhile isWhiteSpace s)))),
      localeCompare = compare_units \<rparr>"




subsection \<open>Runs of the store\<close>

text \<open>The initial values of the three \<^verbatim>\<open>useState\<close> cells, lines 57-59.\<close>

definition initial_state :: state where
  "initial_state = \<lparr> notes_st = [], searchTerm = '''', activeId = None \<rparr>"

text \<open>The five operations on the store, each with what it reads from outside.\<close>

datatype action =
    Create env
  | Update string string payload
  | Duplicate env string
  | Delete string
  | Select string

fun apply_action :: "action \<Rightarrow> state \<Rightarrow> state" where
  "apply_action (Create e) s = createNote e s"
| "apply_action (Update t i p) s = updateNote t i p s"
| "apply_action (Duplicate e i) s = duplicateNote e i s"
| "apply_action (Delete i) s = deleteNote i s"
| "apply_action (Select i) s = selectNote i s"

text \<open>
  The hypothesis on \<^verbatim>\<open>createId\<close> (lines 24-29): an operation that calls it gets an id
  that no note of the store has.
\<close>

fun fresh_id :: "action \<Rightarrow> state \<Rightarrow> bool" where
  "fresh_id (Create e) s = (newId e \<notin> id_note ` set (notes_st s))"
| "fresh_id (Duplicate e i) s = (newId e \<notin> id_note ` set (notes_st s))"
| "fresh_id a s = True"

fun fresh_run :: "action list \<Rightarrow> state \<Rightarrow> bool" where
  "fresh_run [] s = True"
| "fresh_run (a # as) s = (fresh_id a s \<and> fresh_run as (apply_action a s))"

definition unique_ids :: "state \<Rightarrow> bool" where
  "unique_ids s = distinct (map id_note (notes_st s))"

subsection \<open>JSON\<close>

text \<open>
  The values of \<^verbatim>\<open>JSON.parse\<close>. A number is kept as its literal: its value as a
  floating-point number is outside the model.
\<close>

datatype json =
    JNull
  | JBool bool
  | JNumber string
  | JString string
  | JArray "json list"
  | JObject "(string \<times> json) list"

text \<open>
  \<^verbatim>\<open>JSON.parse\<close>, by recursive descent over the JSON grammar. White space is tab,
  line feed, carriage return and space.
\<close>

definition is_json_ws :: "char \<Rightarrow> bool" where
  "is_json_ws c = ((of_char c :: nat) \<in> {9, 10, 13, 32})"

definition skip_ws :: "string \<Rightarrow> string" where
  "skip_ws s = dropWhile is_json_ws s"

definition is_digit :: "char \<Rightarrow> bool" where
  "is_digit c = (48 \<le> (of_char c :: nat) \<and> (of_char c :: nat) \<le> 57)"

definition hex_val :: "char \<Rightarrow> nat option" where
  "hex_val c =
    (let k = (of_char c :: nat)
     in if 48 \<le> k \<and> k \<le> 57 then Some (k - 48)
        else if 97 \<le> k \<and> k \<le> 102 then Some (k - 87)
        else if 65 \<le> k \<and> k \<le> 70 then Some (k - 55)
        else None)"

definition hex4 :: "char \<Rightarrow> char \<Rightarrow> char \<Rightarrow> char \<Rightarrow> nat option" where
  "hex4 a b c d =
    (case (hex_val a, hex_val b, hex_val c, hex_val d) of
       (Some w, Some x, Some y, Some z) \<Rightarrow> Some (((w * 16 + x) * 16 + y) * 16 + z)
     | _ \<Rightarrow> None)"

text \<open>The character after a backslash: quote, backslash, slash, b, f, n, r, t.\<close>

definition unescape :: "char \<Rightarrow> char option" where
  "unescape e =
    (if e = CHR 0x22 \<or> e = CHR 0x5C \<or> e = CHR ''/'' then Some e
     else if e = CHR ''b'' then Some (CHR 0x08)
     else if e = CHR ''f'' then Some (CHR 0x0C)
     else if e = CHR ''n'' then Some (CHR 0x0A)
     else if e = CHR ''r'' then Some (CHR 0x0D)
     else if e = CHR ''t'' then Some (CHR 0x09)
     else None)"

definition cons_result :: "'a \<Rightarrow> ('a list \<times> string) option \<Rightarrow> ('a list \<times> string) option" where
  "cons_result x r = map_option (\<lambda>(xs, rest). (x # xs, rest)) r"

text \<open>
  The characters of a string after its opening quote, up to the closing quote: the string
  and the rest of the input. A control character has to be escaped. The escape
  \<^verbatim>\<open>\uXXXX\<close> gives the code unit \<open>XXXX\<close>. The strings of the store have the
  code units below 256 only: an escape of a higher code unit, which \<^verbatim>\<open>JSON.parse\<close>
  accepts, has no value here and is refused. \<open>JSON_stringify\<close> writes no such escape.
\<close>

fun parse_string_chars :: "string \<Rightarrow> (string \<times> string) option" where
  "parse_string_chars [] = None"
| "parse_string_chars (c # cs) =
    (if c = CHR 0x22 then Some ([], cs)
     else if c = CHR 0x5C then
       (case cs of
          [] \<Rightarrow> None
        | e # cs1 \<Rightarrow>
            if e = CHR ''u'' then
              (case cs1 of
                 h1 # h2 # h3 # h4 # cs2 \<Rightarrow>
                   (case hex4 h1 h2 h3 h4 of
                      None \<Rightarrow> None
                    | Some k \<Rightarrow>
                        if k < 256 then cons_result (char_of k) (parse_string_chars cs2)
                        else None)
               | _ \<Rightarrow> None)
            else
              (case unescape e of
                 None \<Rightarrow> None
               | Some d \<Rightarrow> cons_result d (parse_string_chars cs1)))
     else if (of_char c :: nat) < 32 then None
     else cons_result c (parse_string_chars cs))"

text \<open>
  A number: an optional minus, 0 or digits without a leading 0, an optional fraction and an
  optional exponent.
\<close>

definition digits1 :: "string \<Rightarrow> (string \<times> string) option" where
  "digits1 s =
    (let ds = takeWhile is_digit s
     in if ds = [] then None else Some (ds, dropWhile is_digit s))"

definition parse_number :: "string \<Rightarrow> (string \<times> string) option" where
  "parse_number s =
    (let (sign, s1) = (case s of c # cs \<Rightarrow> if c = CHR ''-'' then ([c], cs) else ([], s) | [] \<Rightarrow> ([], s))
     in case (case s1 of
                [] \<Rightarrow> None
              | c # cs \<Rightarrow> if c = CHR ''0'' then Some ([c], cs) else digits1 s1) of
          None \<Rightarrow> None
        | Some (ip, s2) \<Rightarrow>
            (case (case s2 of
                     [] \<Rightarrow> Some ([], s2)
                   | c # cs \<Rightarrow>
                       if c = CHR ''.'' then map_option (\<lambda>(ds, r). (c # ds, r)) (digits1 cs)
                       else Some ([], s2)) of
               None \<Rightarrow> None
             | Some (fp, s3) \<Rightarrow>
                 (case (case s3 of
                          [] \<Rightarrow> Some ([], s3)
                        | c # cs \<Rightarrow>
                            if c = CHR ''e'' \<or> c = CHR ''E'' then
                              (case cs of
                                 [] \<Rightarrow> None
                               | g # gs \<Rightarrow>
                                   if g = CHR ''+'' \<or> g = CHR ''-''
                                   then map_option (\<lambda>(ds, r). (c # g # ds, r)) (digits1 gs)
                                   else map_option (\<lambda>(ds, r). (c # ds, r)) (digits1 cs))
                            else Some ([], s3)) of
                    None \<Rightarrow> None
                  | Some (ep, s4) \<Rightarrow> Some (sign @ ip @ fp @ ep, s4))))"

text \<open>
  A value, the elements of an array after its bracket, the members of an object after its
  brace. The first argument bounds the number of nested calls; each call but the first comes
  after a character of the input, so twice the length of the input is enough.
\<close>

fun parse_value :: "nat \<Rightarrow> string \<Rightarrow> (json \<times> string) option"
  and parse_elements :: "nat \<Rightarrow> string \<Rightarrow> (json list \<times> string) option"
  and parse_members :: "nat \<Rightarrow> string \<Rightarrow> ((string \<times> json) list \<times> string) option"
where
  "parse_value 0 s = None"
| "parse_value (Suc f) s =
    (case skip_ws s of
       [] \<Rightarrow> None
     | c # cs \<Rightarrow>
         if c = CHR ''['' then
           (case skip_ws cs of
              [] \<Rightarrow> None
            | d # r \<Rightarrow>
                if d = CHR '']'' then Some (JArray [], r)
                else map_option (\<lambda>(vs, r). (JArray vs, r)) (parse_elements f cs))
         else if c = CHR ''{'' then
           (case skip_ws cs of
              [] \<Rightarrow> None
            | d # r \<Rightarrow>
                if d = CHR ''}'' then Some (JObject [], r)
                else map_option (\<lambda>(ms, r). (JObject ms, r)) (parse_members f cs))
         else if c = CHR 0x22 then
           map_option (\<lambda>(str, r). (JString str, r)) (parse_string_chars cs)
         else if prefix ''true'' (c # cs) then Some (JBool True, drop 4 (c # cs))
         else if prefix ''false'' (c # cs) then Some (JBool False, drop 5 (c # cs))
         else if prefix ''null'' (c # cs) then Some (JNull, drop 4 (c # cs))
         else map_option (\<lambda>(lit, r). (JNumber lit, r)) (parse_number (c # cs)))"
| "parse_elements 0 s = None"
| "parse_elements (Suc f) s =
    (case parse_value f s of
       None \<Rightarrow> None
     | Some (v, r) \<Rightarrow>
         (case skip_ws r of
            [] \<Rightarrow> None
          | d # r1 \<Rightarrow>
              if d = CHR '']'' then Some ([v], r1)
              else if d = CHR '','' then cons_result v (parse_elements f r1)
              else None))"
| "parse_members 0 s = None"
| "parse_members (Suc f) s =
    (case skip_ws s of
       [] \<Rightarrow> None
     | q # s1 \<Rightarrow>
         if q \<noteq> CHR 0x22 then None
         else
           (case parse_string_chars s1 of
              None \<Rightarrow> None
            | Some (k, s2) \<Rightarrow>
                (case skip_ws s2 of
                   [] \<Rightarrow> None
                 | c # s3 \<Rightarrow>
                     if c \<noteq> CHR '':'' then None
                     else
                       (case parse_value f s3 of
                          None \<Rightarrow> None
                        | Some (v, r) \<Rightarrow>
                            (case skip_ws r of
                               [] \<Rightarrow> None
                             | d # r1 \<Rightarrow>
                                 if d = CHR ''}'' then Some ([(k, v)], r1)
                                 else if d = CHR '','' then cons_result (k, v) (parse_members f r1)
                                 else None)))))"

text \<open>
  \<^verbatim>\<open>JSON.parse(s)\<close>: one value, white space around it and nothing else; \<open>None\<close>
  stands for the \<^verbatim>\<open>SyntaxError\<close> it throws.
\<close>

definition JSON_parse :: "string \<Rightarrow> json option" where
  "JSON_parse s =
    (case parse_value (Suc (2 * length s)) s of
       None \<Rightarrow> None
     | Some (v, r) \<Rightarrow> if skip_ws r = [] then Some v else None)"

text \<open>
  \<^verbatim>\<open>JSON.stringify\<close> on an array of notes. A string is quoted; quote and backslash
  are escaped with a backslash, the control characters have the short escapes b, f, n, r, t
  or \<^verbatim>\<open>\u00XX\<close> with lower-case hexadecimal digits.
\<close>

definition hex_digit :: "nat \<Rightarrow> char" where
  "hex_digit k = ''0123456789abcdef'' ! k"

definition escape_char :: "char \<Rightarrow> string" where
  "escape_char c =
    (if c = CHR 0x22 then [CHR 0x5C, CHR 0x22]
     else if c = CHR 0x5C then [CHR 0x5C, CHR 0x5C]
     else if c = CHR 0x08 then [CHR 0x5C, CHR ''b'']
     else if c = CHR 0x0C then [CHR 0x5C, CHR ''f'']
     else if c = CHR 0x0A then [CHR 0x5C, CHR ''n'']
     else if c = CHR 0x0D then [CHR 0x5C, CHR ''r'']
     else if c = CHR 0x09 then [CHR 0x5C, CHR ''t'']
     else if (of_char c :: nat) < 32 then
       [CHR 0x5C, CHR ''u'', CHR ''0'', CHR ''0'',
        hex_digit ((of_char c :: nat) div 16), hex_digit ((of_char c :: nat) mod 16)]
     else [c])"

definition quote :: "string \<Rightarrow> string" where
  "quote s = CHR 0x22 # concat (map escape_char s) @ [CHR 0x22]"

fun join :: "string \<Rightarrow> string list \<Rightarrow> string" where
  "join sep [] = []"
| "join sep [x] = x"
| "join sep (x # y # ys) = x @ sep @ join sep (y # ys)"

definition stringify_object :: "(string \<times> string) list \<Rightarrow> string" where
  "stringify_object kvs = ''{'' @ join '','' (map (\<lambda>(k, v). quote k @ '':'' @ v) kvs) @ ''}''"

definition stringify_array :: "string list \<Rightarrow> string" where
  "stringify_array xs = ''['' @ join '','' xs @ '']''"

definition stringify_bool :: "bool \<Rightarrow> string" where
  "stringify_bool b = (if b then ''true'' else ''false'')"

text \<open>The properties of a note are serialised in the order in which the object got them.\<close>

definition stringify_note :: "char Note \<Rightarrow> string" where
  "stringify_note n =
    stringify_object
      [(''id'', quote (id_note n)),
       (''title'', quote (title n)),
       (''content'', quote (content n)),
       (''createdAt'', quote (createdAt n)),
       (''updatedAt'', quote (updatedAt n)),
       (''pinned'', stringify_bool (pinned n)),
       (''color'', quote (color n))]"

text \<open>\<^verbatim>\<open>JSON.stringify(notes)\<close>, line 71.\<close>

definition JSON_stringify :: "char Note list \<Rightarrow> string" where
  "JSON_stringify ns = stringify_array (map stringify_note ns)"

text \<open>
  The persistence effect, lines 69-72: what \<^verbatim>\<open>localStorage.getItem(STORAGE_KEY)\<close>
  returns once the effect has run on the notes.
\<close>

definition persisted :: "char Note list \<Rightarrow> string option" where
  "persisted ns = Some (JSON_stringify ns)"

text \<open>The JSON value of a note, and a note read back from a JSON value.\<close>

definition note_json :: "char Note \<Rightarrow> json" where
  "note_json n =
    JObject
      [(''id'', JString (id_note n)),
       (''title'', JString (title n)),
       (''content'', JString (content n)),
       (''createdAt'', JString (createdAt n)),
       (''updatedAt'', JString (updatedAt n)),
       (''pinned'', JBool (pinned n)),
       (''color'', JString (color n))]"

text \<open>
  Reading the property \<open>k\<close> of a parsed value; when the text of an object names a
  property twice, the later value is the one the object has.
\<close>

definition get_prop :: "json \<Rightarrow> string \<Rightarrow> json option" where
  "get_prop j k = (case j of JObject kvs \<Rightarrow> map_of (rev kvs) k | _ \<Rightarrow> None)"

definition note_of_json :: "json \<Rightarrow> char Note option" where
  "note_of_json j =
    (case (get_prop j ''id'', get_prop j ''title'', get_prop j ''content'',
           get_prop j ''createdAt'', get_prop j ''updatedAt'', get_prop j ''pinned'',
           get_prop j ''color'') of
       (Some (JString i), Some (JString t), Some (JString c), Some (JString ca),
        Some (JString ua), Some (JBool p), Some (JString col)) \<Rightarrow>
         Some \<lparr> id_note = i, title = t, content = c, createdAt = ca, updatedAt = ua,
                pinned = p, color = col \<rparr>
     | _ \<Rightarrow> None)"

subsection \<open>Loading the store\<close>

text \<open>
  What \<^verbatim>\<open>getInitialNotes\<close> finds: no \<^verbatim>\<open>window\<close> at all, or a window whose
  \<^verbatim>\<open>localStorage.getItem(STORAGE_KEY)\<close> throws or returns a string or \<^verbatim>\<open>null\<close>.
\<close>

datatype js_error = SecurityError | SyntaxError | TypeError

datatype window = NoWindow | Window "js_error + string option"

text \<open>
  The body of the \<^verbatim>\<open>try\<close> block, lines 37-40; \<open>Inl\<close> is an exception thrown. The
  first argument stands for \<^verbatim>\<open>JSON.parse\<close>. The cast \<^verbatim>\<open>as Note[]\<close> checks nothing:
  the result is the parsed array, whatever its elements.
\<close>

definition try_block :: "(string \<Rightarrow> json option) \<Rightarrow> js_error + string option \<Rightarrow> js_error + json list" where
  "try_block parse getItem =
    (case getItem of
       Inl e \<Rightarrow> Inl e
     | Inr raw \<Rightarrow>
         (case raw of
            None \<Rightarrow> Inr []
          | Some r \<Rightarrow>
              if r = [] then Inr []
              else
                (case parse r of
                   None \<Rightarrow> Inl SyntaxError
                 | Some parsed \<Rightarrow>
                     (case parsed of JArray xs \<Rightarrow> Inr xs | _ \<Rightarrow> Inr []))))"

text \<open>\<^verbatim>\<open>getInitialNotes\<close>, lines 31-45; the \<^verbatim>\<open>catch\<close> clause logs and returns \<open>[]\<close>.\<close>

definition getInitialNotes :: "(string \<Rightarrow> json option) \<Rightarrow> window \<Rightarrow> js_error + json list" where
  "getInitialNotes parse w =
    (case w of
       NoWindow \<Rightarrow> Inr []
     | Window getItem \<Rightarrow>
         (case try_block parse getItem of
            Inl e \<Rightarrow> Inr []
          | Inr xs \<Rightarrow> Inr xs))"

text \<open>
  The mount effect, lines 61-67: it stores what \<^verbatim>\<open>getInitialNotes\<close> returns and, when
  that is not empty, selects \<^verbatim>\<open>initial[0].id\<close>. The effect is outside the \<^verbatim>\<open>try\<close>
  block, so an exception thrown here leaves it.
\<close>

datatype js_value = Undefined | Value json

text \<open>
  The property read \<^verbatim>\<open>x.id\<close> on a parsed value: a \<^verbatim>\<open>TypeError\<close> on
  \<^verbatim>\<open>null\<close>, the property on an object that has it, \<^verbatim>\<open>undefined\<close> otherwise.
\<close>

definition read_id :: "json \<Rightarrow> js_error + js_value" where
  "read_id x =
    (case x of
       JNull \<Rightarrow> Inl TypeError
     | JObject kvs \<Rightarrow>
         (case get_prop (JObject kvs) ''id'' of
            None \<Rightarrow> Inr Undefined
          | Some v \<Rightarrow> Inr (Value v))
     | _ \<Rightarrow> Inr Undefined)"

text \<open>The cells \<^verbatim>\<open>notes\<close> and \<^verbatim>\<open>activeId\<close> after the mount effect.\<close>

record mounted =
  m_notes :: "json list"
  m_activeId :: js_value

definition mount_effect :: "(string \<Rightarrow> json option) \<Rightarrow> window \<Rightarrow> js_error + mounted" where
  "mount_effect parse w =
    (case getInitialNotes parse w of
       Inl e \<Rightarrow> Inl e
     | Inr initial \<Rightarrow>
         (case initial of
            [] \<Rightarrow> Inr \<lparr> m_notes = initial, m_activeId = Value JNull \<rparr>
          | x # _ \<Rightarrow>
              (case read_id x of
                 Inl e \<Rightarrow> Inl e
               | Inr v \<Rightarrow> Inr \<lparr> m_notes = initial, m_activeId = v \<rparr>)))"

subsection \<open>Sample data\<close>

definition note_a :: "char Note" where
  "note_a = \<lparr> id_note = ''a'', title = ''Groceries'', content = ''Milk and eggs'',
               createdAt = ''2024-01-01T10:00:00.000Z'', updatedAt = ''2024-01-03T10:00:00.000Z'',
               pinned = False, color = ''from-sky-400/80 via-sky-500/50 to-blue-900/20'' \<rparr>"

definition note_b :: "char Note" where
  "note_b = \<lparr> id_note = ''b'', title = ''Work'', content = ''Call Bob about the MILK order'',
               createdAt = ''2024-01-02T10:00:00.000Z'', updatedAt = ''2024-01-02T10:00:00.000Z'',
               pinned = False, color = ''from-rose-400/80 via-pink-500/40 to-fuchsia-900/20'' \<rparr>"

definition note_c :: "char Note" where
  "note_c = \<lparr> id_note = ''c'', title = ''Ideas'', content = '''',
               createdAt = ''2023-12-31T10:00:00.000Z'', updatedAt = ''2023-12-31T10:00:00.000Z'',
               pinned = True, color = ''from-sky-400/80 via-sky-500/50 to-blue-900/20'' \<rparr>"

definition store0 :: state where
  "store0 = \<lparr> notes_st = [note_a, note_b, note_c], searchTerm = '''', activeId = Some ''a'' \<rparr>"

definition env0 :: env where
  "env0 = \<lparr> now = ''2024-01-04T10:00:00.000Z'', newId = ''d'', rnd = 1 / 2 \<rparr>"

definition env1 :: env where
  "env1 = \<lparr> now = ''2024-01-05T10:00:00.000Z'', newId = ''e'', rnd = 3 / 4 \<rparr>"

definition payload0 :: payload where
  "payload0 = \<lparr> p_title = Some ''Job'', p_content = None, p_pinned = Some True, p_color = None \<rparr>"


section \<open>Theorems\<close>

subsection \<open>Deleting a note that is not selected\<close>

text \<open>
  C10. For every store state and every id different from the selected id (ids absent from
  the store included), \<open>deleteNote\<close> leaves the selected-note pointer as it was; so a
  \<open>deleteNote\<close> that changes the selection has deleted the selected note.
\<close>

theorem deleteNote_keeps_other_selection:
  "(activeId s \<noteq> Some i \<longrightarrow> activeId (deleteNote i s) = activeId s) \<and>
   (activeId (deleteNote i s) \<noteq> activeId s \<longrightarrow> activeId s = Some i)"
  by (auto simp: deleteNote_def Let_def)

theorem deleteNote_keeps_other_selection_witness:
  "activeId store0 \<noteq> Some ''b'' \<and> activeId (deleteNote ''b'' store0) = activeId store0 \<and>
   activeId (deleteNote ''a'' store0) \<noteq> activeId store0 \<and> activeId store0 = Some ''a''"
proof -
  have b: "activeId store0 \<noteq> Some ''b''"
    by (simp add: store0_def)
  have a: "activeId (deleteNote ''a'' store0) \<noteq> activeId store0"
    by (simp add: deleteNote_def store0_def note_a_def note_b_def note_c_def)
  from b a deleteNote_keeps_other_selection [of store0 "''b''"]
    deleteNote_keeps_other_selection [of store0 "''a''"]
  show ?thesis by blast
qed

subsection \<open>Creating a note\<close>

lemma palette_index:
  assumes "0 \<le> r" and "r < 1"
  shows "nat \<lfloor>r * real (length palettes)\<rfloor> < length palettes"
proof -
  have len: "length palettes = 4" by (simp add: palettes_def)
  have "\<lfloor>r * 4\<rfloor> < 4" using assms by (simp add: floor_less_iff)
  then have "nat \<lfloor>r * 4\<rfloor> < 4" by linarith
  with len show ?thesis by simp
qed

text \<open>
  C2, as amended. For every store state, \<open>createNote\<close> puts a new note in front of the
  notes already there, which stay as they were. Its title is \<open>''Untitled''\<close> (the claim
  says empty) and its content is empty, \<open>createdAt\<close> and \<open>updatedAt\<close> are both the
  current timestamp, it is not pinned, and its colour is one of the palette. The new note
  becomes the selected note.
\<close>

theorem createNote_spec:
  assumes "0 \<le> rnd e" and "rnd e < 1"
  shows "\<exists>n. notes_st (createNote e s) = n # notes_st s \<and>
           id_note n = newId e \<and> title n = ''Untitled'' \<and> content n = '''' \<and>
           createdAt n = now e \<and> updatedAt n = now e \<and> \<not> pinned n \<and>
           color n \<in> set palettes \<and>
           activeId (createNote e s) = Some (id_note n) \<and>
           searchTerm (createNote e s) = searchTerm s"
  using palette_index [OF assms] by (simp add: createNote_def)

theorem createNote_spec_witness:
  "0 \<le> rnd env0 \<and> rnd env0 < 1 \<and>
   (\<exists>n. notes_st (createNote env0 store0) = n # notes_st store0 \<and>
           id_note n = newId env0 \<and> title n = ''Untitled'' \<and> content n = '''' \<and>
           createdAt n = now env0 \<and> updatedAt n = now env0 \<and> \<not> pinned n \<and>
           color n \<in> set palettes \<and>
           activeId (createNote env0 store0) = Some (id_note n) \<and>
           searchTerm (createNote env0 store0) = searchTerm store0)"
proof -
  have h: "0 \<le> rnd env0" "rnd env0 < 1" by (simp_all add: env0_def)
  from createNote_spec [OF h, of store0] h show ?thesis by blast
qed

text \<open>The claim as stated fails on any store: the title of the new note is not empty.\<close>

theorem createNote_title_counterexample:
  "\<not> (title (hd (notes_st (createNote env0 store0))) = '''' \<and>
      content (hd (notes_st (createNote env0 store0))) = '''')"
  by (simp add: createNote_def)

subsection \<open>Updating a note\<close>

lemma updateNote_nth:
  "k < length (notes_st s) \<Longrightarrow>
   notes_st (updateNote t i p s) ! k =
     (if id_note (notes_st s ! k) = i then merge_payload t p (notes_st s ! k) else notes_st s ! k)"
  by (simp add: updateNote_def)

lemma updateNote_absent:
  assumes "i \<notin> id_note ` set (notes_st s)"
  shows "updateNote t i p s = s"
proof -
  have "map (\<lambda>n. if id_note n = i then merge_payload t p n else n) (notes_st s) = notes_st s"
    using assms by (intro map_idI) auto
  then show ?thesis by (simp add: updateNote_def)
qed

text \<open>
  C3. For every store state and id, \<open>updateNote\<close> keeps the length and the order of the
  store, the selection and the search term. A note with another id is unchanged. A note with
  the given id keeps its id and \<open>createdAt\<close>, gets the current timestamp as \<open>updatedAt\<close>,
  and each of title, content, pinned and colour is the payload's value when the payload has
  one and the old value otherwise. When no note has the id, the state is unchanged.
\<close>

theorem updateNote_spec:
  "length (notes_st (updateNote t i p s)) = length (notes_st s) \<and>
   activeId (updateNote t i p s) = activeId s \<and>
   searchTerm (updateNote t i p s) = searchTerm s \<and>
   (\<forall>k < length (notes_st s).
      (id_note (notes_st s ! k) \<noteq> i \<longrightarrow> notes_st (updateNote t i p s) ! k = notes_st s ! k) \<and>
      (id_note (notes_st s ! k) = i \<longrightarrow>
         id_note (notes_st (updateNote t i p s) ! k) = i \<and>
         createdAt (notes_st (updateNote t i p s) ! k) = createdAt (notes_st s ! k) \<and>
         updatedAt (notes_st (updateNote t i p s) ! k) = t \<and>
         title (notes_st (updateNote t i p s) ! k) =
           (case p_title p of None \<Rightarrow> title (notes_st s ! k) | Some v \<Rightarrow> v) \<and>
         content (notes_st (updateNote t i p s) ! k) =
           (case p_content p of None \<Rightarrow> content (notes_st s ! k) | Some v \<Rightarrow> v) \<and>
         pinned (notes_st (updateNote t i p s) ! k) =
           (case p_pinned p of None \<Rightarrow> pinned (notes_st s ! k) | Some v \<Rightarrow> v) \<and>
         color (notes_st (updateNote t i p s) ! k) =
           (case p_color p of None \<Rightarrow> color (notes_st s ! k) | Some v \<Rightarrow> v))) \<and>
   (i \<notin> id_note ` set (notes_st s) \<longrightarrow> updateNote t i p s = s)"
proof -
  have frame: "length (notes_st (updateNote t i p s)) = length (notes_st s) \<and>
      activeId (updateNote t i p s) = activeId s \<and>
      searchTerm (updateNote t i p s) = searchTerm s"
    by (simp add: updateNote_def)
  have each: "\<forall>k < length (notes_st s).
      (id_note (notes_st s ! k) \<noteq> i \<longrightarrow> notes_st (updateNote t i p s) ! k = notes_st s ! k) \<and>
      (id_note (notes_st s ! k) = i \<longrightarrow>
         id_note (notes_st (updateNote t i p s) ! k) = i \<and>
         createdAt (notes_st (updateNote t i p s) ! k) = createdAt (notes_st s ! k) \<and>
         updatedAt (notes_st (updateNote t i p s) ! k) = t \<and>
         title (notes_st (updateNote t i p s) ! k) =
           (case p_title p of None \<Rightarrow> title (notes_st s ! k) | Some v \<Rightarrow> v) \<and>
         content (notes_st (updateNote t i p s) ! k) =
           (case p_content p of None \<Rightarrow> content (notes_st s ! k) | Some v \<Rightarrow> v) \<and>
         pinned (notes_st (updateNote t i p s) ! k) =
           (case p_pinned p of None \<Rightarrow> pinned (notes_st s ! k) | Some v \<Rightarrow> v) \<and>
         color (notes_st (updateNote t i p s) ! k) =
           (case p_color p of None \<Rightarrow> color (notes_st s ! k) | Some v \<Rightarrow> v))"
    by (simp add: updateNote_nth merge_payload_def)
  from frame each updateNote_absent [of i s t p] show ?thesis by blast
qed

theorem updateNote_spec_witness:
  "(1::nat) < length (notes_st store0) \<and>
   id_note (notes_st store0 ! 1) = ''b'' \<and>
   updatedAt (notes_st (updateNote (now env0) ''b'' payload0 store0) ! 1) = now env0 \<and>
   createdAt (notes_st (updateNote (now env0) ''b'' payload0 store0) ! 1) =
     createdAt (notes_st store0 ! 1) \<and>
   notes_st (updateNote (now env0) ''b'' payload0 store0) =
     [note_a,
      note_b\<lparr> title := ''Job'', pinned := True, updatedAt := ''2024-01-04T10:00:00.000Z'' \<rparr>,
      note_c] \<and>
   ''zz'' \<notin> id_note ` set (notes_st store0) \<and>
   updateNote (now env0) ''zz'' payload0 store0 = store0"
proof -
  have k: "(1::nat) < length (notes_st store0)"
    by (simp add: store0_def)
  have idb: "id_note (notes_st store0 ! 1) = ''b''"
    by (simp add: store0_def note_b_def)
  have absent: "''zz'' \<notin> id_note ` set (notes_st store0)"
    by (simp add: store0_def note_a_def note_b_def note_c_def)
  have upd: "notes_st (updateNote (now env0) ''b'' payload0 store0) =
     [note_a,
      note_b\<lparr> title := ''Job'', pinned := True, updatedAt := ''2024-01-04T10:00:00.000Z'' \<rparr>,
      note_c]"
    by (simp add: updateNote_def merge_payload_def store0_def env0_def payload0_def
        note_a_def note_b_def note_c_def)
  from k idb updateNote_spec [of "now env0" "''b''" payload0 store0]
  have at_b: "updatedAt (notes_st (updateNote (now env0) ''b'' payload0 store0) ! 1) = now env0 \<and>
     createdAt (notes_st (updateNote (now env0) ''b'' payload0 store0) ! 1) =
       createdAt (notes_st store0 ! 1)"
    by blast
  from k idb at_b absent upd updateNote_spec [of "now env0" "''zz''" payload0 store0]
  show ?thesis by blast
qed

text \<open>
  C6. For every store state and every note in it, if the current timestamp is not below
  the note's \<open>updatedAt\<close> (as strings), then after \<open>updateNote\<close> the note's \<open>updatedAt\<close>
  is not below the one it had.
\<close>

theorem updateNote_updatedAt_monotone:
  assumes "k < length (notes_st s)"
    and "updatedAt (notes_st s ! k) \<le> t"
  shows "updatedAt (notes_st s ! k) \<le> updatedAt (notes_st (updateNote t i p s) ! k)"
  using assms by (simp add: updateNote_nth merge_payload_def)

theorem updateNote_updatedAt_monotone_witness:
  "(1::nat) < length (notes_st store0) \<and>
   updatedAt (notes_st store0 ! 1) \<le> now env0 \<and>
   updatedAt (notes_st store0 ! 1) \<le>
     updatedAt (notes_st (updateNote (now env0) ''b'' payload0 store0) ! 1)"
proof -
  have k: "(1::nat) < length (notes_st store0)"
    by (simp add: store0_def)
  have le: "updatedAt (notes_st store0 ! 1) \<le> now env0"
    by (simp add: store0_def env0_def note_b_def)
  from k le updateNote_updatedAt_monotone [OF k le] show ?thesis by blast
qed

subsection \<open>Deleting the selected note\<close>

lemma first_filter_find:
  "(case filter P xs of [] \<Rightarrow> None | n # _ \<Rightarrow> Some (f n)) = map_option f (find P xs)"
  by (induction xs) auto

text \<open>
  C4, as amended. For every store state, when \<open>deleteNote\<close> removes the selected note,
  the new selected note is the first note in store order (the claim says display order) of
  the notes that remain, that is the first note of the old store with another id; if no
  note remains, no note is selected.
\<close>

theorem deleteNote_selects_first_in_store:
  assumes "activeId s = Some i"
  shows "notes_st (deleteNote i s) = filter (\<lambda>n. id_note n \<noteq> i) (notes_st s) \<and>
         activeId (deleteNote i s) =
           (case notes_st (deleteNote i s) of [] \<Rightarrow> None | n # _ \<Rightarrow> Some (id_note n)) \<and>
         activeId (deleteNote i s) =
           map_option id_note (find (\<lambda>n. id_note n \<noteq> i) (notes_st s))"
  using assms by (simp add: deleteNote_def Let_def first_filter_find)

theorem deleteNote_selects_first_in_store_witness:
  "activeId store0 = Some ''a'' \<and>
   notes_st (deleteNote ''a'' store0) = [note_b, note_c] \<and>
   activeId (deleteNote ''a'' store0) = Some ''b''"
proof -
  have h: "activeId store0 = Some ''a''"
    by (simp add: store0_def)
  have f: "filter (\<lambda>n. id_note n \<noteq> ''a'') (notes_st store0) = [note_b, note_c]"
    by (simp add: store0_def note_a_def note_b_def note_c_def)
  have b: "id_note note_b = ''b''"
    by (simp add: note_b_def)
  from deleteNote_selects_first_in_store [OF h] f b h show ?thesis by simp
qed

text \<open>
  The claim as stated fails on the store \<open>[a, b, c]\<close> with \<open>a\<close> selected and only \<open>c\<close>
  pinned: after deleting \<open>a\<close> the selected note is \<open>b\<close>, the first in store order, while
  the first note in display order is the pinned \<open>c\<close>.
\<close>

theorem deleteNote_display_order_counterexample:
  "activeId store0 = Some ''a'' \<and>
   activeId (deleteNote ''a'' store0) = Some ''b'' \<and>
   (case filteredNotes latin1 (notes_st (deleteNote ''a'' store0))
           (searchTerm (deleteNote ''a'' store0))
    of [] \<Rightarrow> None | n # _ \<Rightarrow> Some (id_note n)) = Some ''c''"
  by code_simp

text \<open>
  The view of the two notes that remain starts with \<open>c\<close> on every platform: the comparator
  decides between a pinned and an unpinned note without \<open>localeCompare\<close>.
\<close>

lemma view_after_delete_any_platform:
  assumes "trim P [] = []"
  shows "filteredNotes P (notes_st (deleteNote ''a'' store0)) (searchTerm (deleteNote ''a'' store0)) =
    [note_c, note_b]"
  using assms
  by (simp add: deleteNote_def store0_def filteredNotes_def array_sort_def compareNotes_def
      Number_def note_a_def note_b_def note_c_def)

subsection \<open>Duplicating a note\<close>

lemma find_id_Some:
  "i \<in> id_note ` set xs \<Longrightarrow>
   \<exists>t. find (\<lambda>n. id_note n = i) xs = Some t \<and> t \<in> set xs \<and> id_note t = i"
  by (induction xs) auto

lemma find_id_None:
  "i \<notin> id_note ` set xs \<Longrightarrow> find (\<lambda>n. id_note n = i) xs = None"
  by (induction xs) auto

text \<open>
  C5. For every store state with a note of the given id, \<open>duplicateNote\<close> puts in front of
  the store, which is otherwise unchanged, a copy of the (first) note \<open>t\<close> with that id: the
  copy has the generated id, \<open>createdAt\<close> and \<open>updatedAt\<close> equal to the current timestamp,
  the title of \<open>t\<close> followed by \<open>'' (Copy)''\<close>, and the content, pinned flag and colour of
  \<open>t\<close>; the copy becomes the selected note. When no note has the id, the state is unchanged.
\<close>

theorem duplicateNote_spec:
  "(i \<in> id_note ` set (notes_st s) \<longrightarrow>
      (\<exists>t c. find (\<lambda>n. id_note n = i) (notes_st s) = Some t \<and>
         t \<in> set (notes_st s) \<and> id_note t = i \<and>
         notes_st (duplicateNote e i s) = c # notes_st s \<and>
         id_note c = newId e \<and> createdAt c = now e \<and> updatedAt c = now e \<and>
         title c = title t @ '' (Copy)'' \<and>
         content c = content t \<and> pinned c = pinned t \<and> color c = color t \<and>
         activeId (duplicateNote e i s) = Some (id_note c) \<and>
         searchTerm (duplicateNote e i s) = searchTerm s)) \<and>
   (i \<notin> id_note ` set (notes_st s) \<longrightarrow> duplicateNote e i s = s)"
proof (intro conjI impI)
  assume "i \<in> id_note ` set (notes_st s)"
  then obtain t where t: "find (\<lambda>n. id_note n = i) (notes_st s) = Some t"
      "t \<in> set (notes_st s)" "id_note t = i"
    using find_id_Some by blast
  then show "\<exists>t c. find (\<lambda>n. id_note n = i) (notes_st s) = Some t \<and>
         t \<in> set (notes_st s) \<and> id_note t = i \<and>
         notes_st (duplicateNote e i s) = c # notes_st s \<and>
         id_note c = newId e \<and> createdAt c = now e \<and> updatedAt c = now e \<and>
         title c = title t @ '' (Copy)'' \<and>
         content c = content t \<and> pinned c = pinned t \<and> color c = color t \<and>
         activeId (duplicateNote e i s) = Some (id_note c) \<and>
         searchTerm (duplicateNote e i s) = searchTerm s"
    by (simp add: duplicateNote_def)
next
  assume "i \<notin> id_note ` set (notes_st s)"
  then show "duplicateNote e i s = s"
    by (simp add: duplicateNote_def find_id_None)
qed

theorem duplicateNote_spec_witness:
  "''b'' \<in> id_note ` set (notes_st store0) \<and>
   (\<exists>c. notes_st (duplicateNote env0 ''b'' store0) = c # notes_st store0 \<and>
        id_note c = newId env0) \<and>
   notes_st (duplicateNote env0 ''b'' store0) =
     note_b\<lparr> id_note := ''d'', title := ''Work (Copy)'',
             createdAt := ''2024-01-04T10:00:00.000Z'',
             updatedAt := ''2024-01-04T10:00:00.000Z'' \<rparr> # notes_st store0 \<and>
   activeId (duplicateNote env0 ''b'' store0) = Some ''d'' \<and>
   ''zz'' \<notin> id_note ` set (notes_st store0) \<and>
   duplicateNote env0 ''zz'' store0 = store0"
proof -
  have present: "''b'' \<in> id_note ` set (notes_st store0)"
    by (simp add: store0_def note_a_def note_b_def note_c_def)
  have absent: "''zz'' \<notin> id_note ` set (notes_st store0)"
    by (simp add: store0_def note_a_def note_b_def note_c_def)
  have dup: "notes_st (duplicateNote env0 ''b'' store0) =
     note_b\<lparr> id_note := ''d'', title := ''Work (Copy)'',
             createdAt := ''2024-01-04T10:00:00.000Z'',
             updatedAt := ''2024-01-04T10:00:00.000Z'' \<rparr> # notes_st store0"
    by (simp add: duplicateNote_def store0_def env0_def note_a_def note_b_def note_c_def)
  have sel: "activeId (duplicateNote env0 ''b'' store0) = Some ''d''"
    by (simp add: duplicateNote_def store0_def env0_def note_a_def note_b_def note_c_def)
  from present duplicateNote_spec [of "''b''" store0 env0]
  have ex: "\<exists>c. notes_st (duplicateNote env0 ''b'' store0) = c # notes_st store0 \<and>
        id_note c = newId env0"
    by blast
  from present absent dup sel ex duplicateNote_spec [of "''zz''" store0 env0]
  show ?thesis by blast
qed

subsection \<open>Unique ids\<close>

lemma ids_createNote: "map id_note (notes_st (createNote e s)) = newId e # map id_note (notes_st s)"
  by (simp add: createNote_def)

lemma ids_updateNote: "map id_note (notes_st (updateNote t i p s)) = map id_note (notes_st s)"
  by (simp add: updateNote_def merge_payload_def)

lemma ids_duplicateNote:
  "map id_note (notes_st (duplicateNote e i s)) =
     (if i \<in> id_note ` set (notes_st s) then newId e # map id_note (notes_st s)
      else map id_note (notes_st s))"
proof (cases "i \<in> id_note ` set (notes_st s)")
  case True
  then obtain t where "find (\<lambda>n. id_note n = i) (notes_st s) = Some t"
    using find_id_Some by blast
  with True show ?thesis by (simp add: duplicateNote_def)
next
  case False
  then show ?thesis by (simp add: duplicateNote_def find_id_None)
qed

lemma ids_deleteNote:
  "map id_note (notes_st (deleteNote i s)) = filter (\<lambda>j. j \<noteq> i) (map id_note (notes_st s))"
  by (simp add: deleteNote_def Let_def filter_map comp_def)

lemma ids_selectNote: "map id_note (notes_st (selectNote i s)) = map id_note (notes_st s)"
  by (simp add: selectNote_def)

lemma unique_ids_step:
  assumes "unique_ids s" and "fresh_id a s"
  shows "unique_ids (apply_action a s)"
proof (cases a)
  case (Create e)
  with assms show ?thesis by (simp add: unique_ids_def ids_createNote)
next
  case (Update t i p)
  with assms show ?thesis by (simp add: unique_ids_def ids_updateNote)
next
  case (Duplicate e i)
  with assms show ?thesis by (simp add: unique_ids_def ids_duplicateNote)
next
  case (Delete i)
  with assms show ?thesis by (simp add: unique_ids_def ids_deleteNote)
next
  case (Select i)
  with assms show ?thesis by (simp add: unique_ids_def ids_selectNote)
qed

lemma unique_ids_run:
  "unique_ids s \<Longrightarrow> fresh_run as s \<Longrightarrow> unique_ids (fold apply_action as s)"
  by (induction as arbitrary: s) (auto intro: unique_ids_step)

lemma length_creates:
  "length (notes_st (fold apply_action (map Create es) s)) = length es + length (notes_st s)"
  by (induction es arbitrary: s) (auto simp: createNote_def)

lemma unique_ids_initial: "unique_ids initial_state"
  by (simp add: unique_ids_def initial_state_def)

text \<open>
  C7. If the ids of the store are pairwise distinct and the id generator returns an id that
  no note of the store has, then the ids are pairwise distinct after each of create, update,
  duplicate, delete and select, and so after every run of them. In particular \<open>N\<close>
  creations from the empty store give \<open>N\<close> notes with \<open>N\<close> distinct ids.
\<close>

theorem unique_ids_preserved:
  "(unique_ids s \<and> fresh_id a s \<longrightarrow> unique_ids (apply_action a s)) \<and>
   (unique_ids s \<and> fresh_run as s \<longrightarrow> unique_ids (fold apply_action as s)) \<and>
   (fresh_run (map Create es) initial_state \<longrightarrow>
      length (notes_st (fold apply_action (map Create es) initial_state)) = length es \<and>
      distinct (map id_note (notes_st (fold apply_action (map Create es) initial_state))) \<and>
      card (id_note ` set (notes_st (fold apply_action (map Create es) initial_state))) = length es)"
proof (intro conjI impI)
  assume "unique_ids s \<and> fresh_id a s"
  then show "unique_ids (apply_action a s)" by (simp add: unique_ids_step)
next
  assume "unique_ids s \<and> fresh_run as s"
  then show "unique_ids (fold apply_action as s)" by (simp add: unique_ids_run)
next
  assume "fresh_run (map Create es) initial_state"
  show "length (notes_st (fold apply_action (map Create es) initial_state)) = length es"
    by (simp add: length_creates initial_state_def)
next
  assume "fresh_run (map Create es) initial_state"
  then have "unique_ids (fold apply_action (map Create es) initial_state)"
    using unique_ids_initial unique_ids_run by blast
  then show "distinct (map id_note (notes_st (fold apply_action (map Create es) initial_state)))"
    by (simp add: unique_ids_def)
next
  assume "fresh_run (map Create es) initial_state"
  then have "unique_ids (fold apply_action (map Create es) initial_state)"
    using unique_ids_initial unique_ids_run by blast
  then have "card (set (map id_note (notes_st (fold apply_action (map Create es) initial_state)))) =
      length (map id_note (notes_st (fold apply_action (map Create es) initial_state)))"
    unfolding unique_ids_def by (rule distinct_card)
  then show "card (id_note ` set (notes_st (fold apply_action (map Create es) initial_state))) = length es"
    by (simp add: length_creates initial_state_def)
qed

theorem unique_ids_preserved_witness:
  "unique_ids store0 \<and> fresh_id (Duplicate env0 ''b'') store0 \<and>
   unique_ids (apply_action (Duplicate env0 ''b'') store0) \<and>
   fresh_run [Create env0, Delete ''a'', Update (now env1) ''d'' payload0, Select ''c'', Duplicate env1 ''d''] store0 \<and>
   unique_ids (fold apply_action [Create env0, Delete ''a'', Update (now env1) ''d'' payload0, Select ''c'', Duplicate env1 ''d''] store0) \<and>
   fresh_run (map Create [env0, env1]) initial_state \<and>
   length (notes_st (fold apply_action (map Create [env0, env1]) initial_state)) = 2 \<and>
   card (id_note ` set (notes_st (fold apply_action (map Create [env0, env1]) initial_state))) = 2"
proof -
  have u: "unique_ids store0"
    by (simp add: unique_ids_def store0_def note_a_def note_b_def note_c_def)
  have f: "fresh_id (Duplicate env0 ''b'') store0"
    by (simp add: env0_def store0_def note_a_def note_b_def note_c_def)
  have r: "fresh_run [Create env0, Delete ''a'', Update (now env1) ''d'' payload0, Select ''c'', Duplicate env1 ''d''] store0"
    by (simp add: env0_def env1_def store0_def note_a_def note_b_def note_c_def
        createNote_def deleteNote_def updateNote_def selectNote_def merge_payload_def)
  have c: "fresh_run (map Create [env0, env1]) initial_state"
    by (simp add: env0_def env1_def initial_state_def createNote_def)
  from u f r c
    unique_ids_preserved [of store0 "Duplicate env0 ''b''" "[Create env0, Delete ''a'', Update (now env1) ''d'' payload0, Select ''c'', Duplicate env1 ''d'']" "[env0, env1]"]
  show ?thesis by simp
qed

subsection \<open>The view derivation\<close>



text \<open>
  Where \<open>toLowerCase\<close> lowers a string code unit by code unit, as it does on ASCII text, the
  lower-cased term is a stretch of the lower-cased text exactly when a stretch of the text
  itself equals the term up to case.
\<close>

lemma ci_substring_stretch:
  assumes "toLowerCase P = map f"
  shows "ci_substring P needle hay \<longleftrightarrow>
    (\<exists>pre s suf. hay = pre @ s @ suf \<and> toLowerCase P s = toLowerCase P needle)"
proof
  assume "ci_substring P needle hay"
  then obtain pre suf where "map f hay = pre @ map f needle @ suf"
    unfolding ci_substring_def assms by blast
  then have "\<exists>us vs. hay = us @ vs \<and> pre = map f us \<and> map f needle @ suf = map f vs"
    by (simp only: map_eq_append_conv)
  then obtain a vs where a: "hay = a @ vs" "map f needle @ suf = map f vs"
    by blast
  from a(2) have "\<exists>us ws. vs = us @ ws \<and> map f needle = map f us \<and> suf = map f ws"
    by (simp only: append_eq_map_conv)
  then obtain b c where "vs = b @ c" "map f needle = map f b"
    by blast
  with a have "hay = a @ b @ c" "map f b = map f needle"
    by simp_all
  then show "\<exists>pre s suf. hay = pre @ s @ suf \<and> toLowerCase P s = toLowerCase P needle"
    unfolding assms by blast
next
  assume "\<exists>pre s suf. hay = pre @ s @ suf \<and> toLowerCase P s = toLowerCase P needle"
  then obtain pre s suf where "hay = pre @ s @ suf" "map f s = map f needle"
    unfolding assms by blast
  then have "map f hay = map f pre @ map f needle @ map f suf"
    by simp
  then show "ci_substring P needle hay"
    unfolding ci_substring_def assms by blast
qed

lemma mset_insort_by: "mset (insort_by cmp x ys) = add_mset x (mset ys)"
  by (induction ys) auto

lemma mset_array_sort: "mset (array_sort cmp xs) = mset xs"
  by (induction xs) (auto simp: array_sort_def mset_insort_by)

lemma set_insort_by: "set (insort_by cmp x ys) = insert x (set ys)"
  by (induction ys) auto

lemma compareNotes_le: "compareNotes P a b \<le> 0 \<longleftrightarrow> display_before P a b"
  by (auto simp: compareNotes_def display_before_def Number_def Let_def)

lemma display_before_total:
  assumes "consistent_compare (localeCompare P)"
  shows "display_before P a b \<or> display_before P b a"
proof -
  from assms have "localeCompare P (updatedAt b) (updatedAt a) \<le> 0 \<or>
      localeCompare P (updatedAt a) (updatedAt b) \<le> 0"
    unfolding consistent_compare_def by blast
  then show ?thesis by (auto simp: display_before_def)
qed

lemma display_before_trans:
  assumes "consistent_compare (localeCompare P)"
    and "display_before P a b" and "display_before P b c"
  shows "display_before P a c"
proof -
  from assms(1) have tr: "localeCompare P (updatedAt c) (updatedAt a) \<le> 0"
    if "localeCompare P (updatedAt c) (updatedAt b) \<le> 0"
      and "localeCompare P (updatedAt b) (updatedAt a) \<le> 0"
    using that unfolding consistent_compare_def by blast
  from assms(2,3) show ?thesis
    by (auto simp: display_before_def intro: tr)
qed

lemma sorted_insort_by:
  assumes ok: "consistent_compare (localeCompare P)"
  shows "sorted_wrt (display_before P) ys \<Longrightarrow>
    sorted_wrt (display_before P) (insort_by (compareNotes P) x ys)"
proof (induction ys)
  case Nil
  then show ?case by simp
next
  case (Cons y ys)
  show ?case
  proof (cases "compareNotes P x y \<le> 0")
    case True
    then have xy: "display_before P x y" by (simp add: compareNotes_le)
    with Cons.prems have "\<forall>z \<in> set ys. display_before P x z"
      by (auto intro: display_before_trans [OF ok])
    with True xy Cons.prems show ?thesis by simp
  next
    case False
    then have "display_before P y x"
      using display_before_total [OF ok, of x y] by (simp add: compareNotes_le)
    with False Cons show ?thesis by (auto simp: set_insort_by)
  qed
qed

lemma sorted_array_sort:
  "consistent_compare (localeCompare P) \<Longrightarrow>
   sorted_wrt (display_before P) (array_sort (compareNotes P) xs)"
  by (induction xs) (auto simp: array_sort_def sorted_insort_by)





text \<open>
  On notes whose timestamps \<open>localeCompare\<close> orders as their code units are ordered, as it
  does with the timestamps of one layout that \<^verbatim>\<open>toISOString\<close> writes, the view is
  sorted with the later timestamp first.
\<close>

lemma filteredNotes_latest_first:
  fixes P :: "'c::linorder platform"
  assumes ok: "consistent_compare (localeCompare P)"
    and agree: "\<forall>a \<in> set ns. \<forall>b \<in> set ns.
      (localeCompare P (updatedAt a) (updatedAt b) \<le> 0) = (updatedAt a \<le> updatedAt b)"
  shows "sorted_wrt
      (\<lambda>a b. (pinned a \<and> \<not> pinned b) \<or> (pinned a = pinned b \<and> updatedAt b \<le> updatedAt a))
      (filteredNotes P ns st)"
proof -
  have sub: "set (filteredNotes P ns st) \<subseteq> set ns"
    by (auto simp: filteredNotes_def Let_def simp flip: set_mset_mset [of "array_sort _ _"]
        simp: mset_array_sort)
  have "sorted_wrt (display_before P) (filteredNotes P ns st)"
    using ok by (simp add: filteredNotes_def Let_def sorted_array_sort)
  then show ?thesis
  proof (rule sorted_wrt_mono_rel [rotated])
    fix a b
    assume "a \<in> set (filteredNotes P ns st)" and "b \<in> set (filteredNotes P ns st)"
      and "display_before P a b"
    with sub agree show "(pinned a \<and> \<not> pinned b) \<or>
        (pinned a = pinned b \<and> updatedAt b \<le> updatedAt a)"
      unfolding display_before_def by blast
  qed
qed

subsection \<open>Loading the store\<close>

text \<open>
  Whatever \<^verbatim>\<open>JSON.parse\<close> does, \<open>getInitialNotes\<close> returns the empty list when
  there is no window, when reading the storage throws, when the stored value is absent or
  the empty string, when it is not valid JSON, and when it parses to something that is not
  an array; when it parses to an array, the result is that array, unchecked. No exception
  leaves \<open>getInitialNotes\<close>.
\<close>

lemma getInitialNotes_cases:
  "getInitialNotes parse NoWindow = Inr [] \<and>
   getInitialNotes parse (Window (Inl e)) = Inr [] \<and>
   getInitialNotes parse (Window (Inr None)) = Inr [] \<and>
   getInitialNotes parse (Window (Inr (Some ''''))) = Inr [] \<and>
   (parse raw = None \<longrightarrow> getInitialNotes parse (Window (Inr (Some raw))) = Inr []) \<and>
   (\<forall>v. parse raw = Some v \<and> (\<forall>xs. v \<noteq> JArray xs) \<longrightarrow>
      getInitialNotes parse (Window (Inr (Some raw))) = Inr []) \<and>
   (\<forall>xs. raw \<noteq> [] \<and> parse raw = Some (JArray xs) \<longrightarrow>
      getInitialNotes parse (Window (Inr (Some raw))) = Inr xs) \<and>
   (\<exists>xs. getInitialNotes parse w = Inr xs)"
proof -
  have not_json: "getInitialNotes parse (Window (Inr (Some raw))) = Inr []"
    if "parse raw = None"
    using that by (simp add: getInitialNotes_def try_block_def)
  have not_array: "getInitialNotes parse (Window (Inr (Some raw))) = Inr []"
    if "parse raw = Some v" and "\<forall>xs. v \<noteq> JArray xs" for v
    using that by (cases v) (simp_all add: getInitialNotes_def try_block_def)
  have array: "getInitialNotes parse (Window (Inr (Some raw))) = Inr xs"
    if "raw \<noteq> []" and "parse raw = Some (JArray xs)" for xs
    using that by (simp add: getInitialNotes_def try_block_def)
  have returns: "\<exists>xs. getInitialNotes parse w = Inr xs"
    by (simp add: getInitialNotes_def split: window.split sum.split)
  have fixed: "getInitialNotes parse NoWindow = Inr [] \<and>
      getInitialNotes parse (Window (Inl e)) = Inr [] \<and>
      getInitialNotes parse (Window (Inr None)) = Inr [] \<and>
      getInitialNotes parse (Window (Inr (Some ''''))) = Inr []"
    by (simp add: getInitialNotes_def try_block_def)
  from fixed not_json not_array array returns show ?thesis by blast
qed

text \<open>
  The mount effect throws exactly when the first element of the loaded array is
  \<^verbatim>\<open>null\<close>, and what it throws is a \<^verbatim>\<open>TypeError\<close>.
\<close>

lemma mount_effect_throws_iff:
  "mount_effect parse w = Inl e \<longleftrightarrow>
     e = TypeError \<and> (\<exists>xs. getInitialNotes parse w = Inr (JNull # xs))"
proof -
  obtain ys where ys: "getInitialNotes parse w = Inr ys"
    using getInitialNotes_cases [of parse _ _ w] by blast
  show ?thesis
  proof (cases ys)
    case Nil
    with ys show ?thesis by (simp add: mount_effect_def)
  next
    case (Cons x xs)
    with ys show ?thesis
      by (cases x) (auto simp: mount_effect_def read_id_def split: option.splits)
  qed
qed

text \<open>
  C8. The claim asks that initialization of the store from storage succeeds for every stored
  value and surfaces no error. The code breaks it on the stored text \<open>[null]\<close>: this is
  valid JSON and an array, so \<open>getInitialNotes\<close> returns it as it is, and the mount effect
  then reads the id of its first element, \<^verbatim>\<open>null\<close>, which throws a \<^verbatim>\<open>TypeError\<close>
  outside the \<^verbatim>\<open>try\<close> block.
\<close>

theorem mount_effect_null_throws:
  "JSON_parse ''[null]'' = Some (JArray [JNull]) \<and>
   getInitialNotes JSON_parse (Window (Inr (Some ''[null]''))) = Inr [JNull] \<and>
   mount_effect JSON_parse (Window (Inr (Some ''[null]''))) = Inl TypeError"
  by code_simp

subsection \<open>The bound on nested calls\<close>

text \<open>
  A parse consumes input, and what succeeds with some bound on the nested calls succeeds
  with every bound from twice the number of characters consumed. So the bound that
  \<open>JSON_parse\<close> sets never turns a text that parses into one that does not.
\<close>

lemma parse_string_chars_shorter:
  "parse_string_chars s = Some (x, r) \<Longrightarrow> length r < length s"
proof (induction s arbitrary: x r rule: parse_string_chars.induct)
  case 1
  then show ?case by simp
next
  case (2 c cs)
  then show ?case
    by (auto simp: cons_result_def split: if_splits list.splits option.splits) fastforce+
qed

lemma digits1_shorter: "digits1 s = Some (ds, r) \<Longrightarrow> length r < length s"
proof -
  assume a: "digits1 s = Some (ds, r)"
  then have "takeWhile is_digit s \<noteq> []" "r = dropWhile is_digit s"
    by (auto simp: digits1_def Let_def split: if_splits)
  moreover have "length (takeWhile is_digit s) + length (dropWhile is_digit s) = length s"
    by (metis length_append takeWhile_dropWhile_id)
  ultimately show ?thesis by (cases "takeWhile is_digit s") auto
qed

lemma parse_number_shorter: "parse_number s = Some (lit, r) \<Longrightarrow> length r < length s"
  unfolding parse_number_def
  by (auto simp: Let_def split: if_splits list.splits option.splits prod.splits
      dest!: digits1_shorter)

lemma skip_ws_Cons_shorter: "skip_ws s = c # cs \<Longrightarrow> length cs < length s"
proof -
  assume a: "skip_ws s = c # cs"
  have "length (dropWhile is_json_ws s) \<le> length s"
    by (rule length_dropWhile_le)
  with a show ?thesis by (simp add: skip_ws_def)
qed

lemma fuel_pred:
  assumes "length r < length s" and "2 * (length s - length r) \<le> g"
  obtains g' where "g = Suc g'" and "2 * (length s - length r) \<le> Suc g'"
  using assms by (cases g) auto

lemma parse_fuel:
  "(parse_value f s = Some (v, r) \<longrightarrow>
      length r < length s \<and>
      (\<forall>g. 2 * (length s - length r) \<le> g \<longrightarrow> parse_value g s = Some (v, r))) \<and>
   (parse_elements f s = Some (vs, r) \<longrightarrow>
      length r < length s \<and>
      (\<forall>g. 2 * (length s - length r) \<le> g \<longrightarrow> parse_elements g s = Some (vs, r))) \<and>
   (parse_members f s = Some (ms, r) \<longrightarrow>
      length r < length s \<and>
      (\<forall>g. 2 * (length s - length r) \<le> g \<longrightarrow> parse_members g s = Some (ms, r)))"
proof (induction f arbitrary: s v r vs ms)
  case 0
  show ?case by simp
next
  case (Suc f)
  have IHV: "length r < length s \<and>
      (\<forall>g. 2 * (length s - length r) \<le> g \<longrightarrow> parse_value g s = Some (v, r))"
    if "parse_value f s = Some (v, r)" for s v r
    using Suc.IH that by blast
  have IHE: "length r < length s \<and>
      (\<forall>g. 2 * (length s - length r) \<le> g \<longrightarrow> parse_elements g s = Some (vs, r))"
    if "parse_elements f s = Some (vs, r)" for s vs r
    using Suc.IH that by blast
  have IHM: "length r < length s \<and>
      (\<forall>g. 2 * (length s - length r) \<le> g \<longrightarrow> parse_members g s = Some (ms, r))"
    if "parse_members f s = Some (ms, r)" for s ms r
    using Suc.IH that by blast
  have V: "length r < length s \<and>
      (\<forall>g. 2 * (length s - length r) \<le> g \<longrightarrow> parse_value g s = Some (v, r))"
    if pv: "parse_value (Suc f) s = Some (v, r)" for s v r
  proof -
    from pv obtain c cs where sk: "skip_ws s = c # cs"
      by (auto split: list.splits)
    then have lcs: "length cs < length s"
      by (rule skip_ws_Cons_shorter)
    consider (arr) "c = CHR ''[''" | (obj) "c \<noteq> CHR ''[''" "c = CHR ''{''"
      | (scalar) "c \<noteq> CHR ''[''" "c \<noteq> CHR ''{''"
      by blast
    then show ?thesis
    proof cases
      case arr
      with pv sk obtain d r' where sk2: "skip_ws cs = d # r'"
        by (auto split: list.splits)
      then have lr': "length r' < length cs"
        by (rule skip_ws_Cons_shorter)
      show ?thesis
      proof (cases "d = CHR '']''")
        case True
        with pv sk arr sk2 have res: "v = JArray []" "r = r'"
          by auto
        with lcs lr' have shorter: "length r < length s"
          by simp
        have "parse_value g s = Some (v, r)" if "2 * (length s - length r) \<le> g" for g
        proof -
          from shorter that obtain g' where "g = Suc g'"
            by (rule fuel_pred)
          with sk arr sk2 True res show ?thesis by simp
        qed
        with shorter show ?thesis by blast
      next
        case False
        with pv sk arr sk2 obtain xs where pe: "parse_elements f cs = Some (xs, r)" and v: "v = JArray xs"
          by auto
        from IHE [OF pe] have lr: "length r < length cs"
          and enough: "\<And>g. 2 * (length cs - length r) \<le> g \<Longrightarrow> parse_elements g cs = Some (xs, r)"
          by blast+
        from lr lcs have shorter: "length r < length s"
          by simp
        have "parse_value g s = Some (v, r)" if "2 * (length s - length r) \<le> g" for g
        proof -
          from shorter that obtain g' where g: "g = Suc g'" and "2 * (length s - length r) \<le> Suc g'"
            by (rule fuel_pred)
          with lcs lr have "2 * (length cs - length r) \<le> g'"
            by linarith
          then have "parse_elements g' cs = Some (xs, r)"
            by (rule enough)
          with sk arr sk2 False v g show ?thesis by simp
        qed
        with shorter show ?thesis by blast
      qed
    next
      case obj
      with pv sk obtain d r' where sk2: "skip_ws cs = d # r'"
        by (auto split: list.splits)
      then have lr': "length r' < length cs"
        by (rule skip_ws_Cons_shorter)
      show ?thesis
      proof (cases "d = CHR ''}''")
        case True
        with pv sk obj sk2 have res: "v = JObject []" "r = r'"
          by auto
        with lcs lr' have shorter: "length r < length s"
          by simp
        have "parse_value g s = Some (v, r)" if "2 * (length s - length r) \<le> g" for g
        proof -
          from shorter that obtain g' where "g = Suc g'"
            by (rule fuel_pred)
          with sk obj sk2 True res show ?thesis by simp
        qed
        with shorter show ?thesis by blast
      next
        case False
        with pv sk obj sk2 obtain xs where pe: "parse_members f cs = Some (xs, r)" and v: "v = JObject xs"
          by auto
        from IHM [OF pe] have lr: "length r < length cs"
          and enough: "\<And>g. 2 * (length cs - length r) \<le> g \<Longrightarrow> parse_members g cs = Some (xs, r)"
          by blast+
        from lr lcs have shorter: "length r < length s"
          by simp
        have "parse_value g s = Some (v, r)" if "2 * (length s - length r) \<le> g" for g
        proof -
          from shorter that obtain g' where g: "g = Suc g'" and "2 * (length s - length r) \<le> Suc g'"
            by (rule fuel_pred)
          with lcs lr have "2 * (length cs - length r) \<le> g'"
            by linarith
          then have "parse_members g' cs = Some (xs, r)"
            by (rule enough)
          with sk obj sk2 False v g show ?thesis by simp
        qed
        with shorter show ?thesis by blast
      qed
    next
      case scalar
      have any: "parse_value (Suc g') s = parse_value (Suc f) s" for g'
        using sk scalar by simp
      have "length r < length (c # cs)"
        using pv sk scalar
        by (auto split: if_splits dest: parse_string_chars_shorter parse_number_shorter)
      with lcs have shorter: "length r < length s"
        by simp
      have "parse_value g s = Some (v, r)" if "2 * (length s - length r) \<le> g" for g
      proof -
        from shorter that obtain g' where "g = Suc g'"
          by (rule fuel_pred)
        with any pv show ?thesis by simp
      qed
      with shorter show ?thesis by blast
    qed
  qed
  have E: "length r < length s \<and>
      (\<forall>g. 2 * (length s - length r) \<le> g \<longrightarrow> parse_elements g s = Some (vs, r))"
    if pe: "parse_elements (Suc f) s = Some (vs, r)" for s vs r
  proof -
    from pe obtain x r1 where pv: "parse_value f s = Some (x, r1)"
      by (auto split: option.splits)
    from IHV [OF pv] have l1: "length r1 < length s"
      and enough1: "\<And>g. 2 * (length s - length r1) \<le> g \<Longrightarrow> parse_value g s = Some (x, r1)"
      by blast+
    from pe pv obtain d r2 where sk: "skip_ws r1 = d # r2"
      by (auto split: list.splits)
    then have l2: "length r2 < length r1"
      by (rule skip_ws_Cons_shorter)
    show ?thesis
    proof (cases "d = CHR '']''")
      case True
      with pe pv sk have res: "vs = [x]" "r = r2"
        by auto
      with l1 l2 have shorter: "length r < length s"
        by simp
      have "parse_elements g s = Some (vs, r)" if "2 * (length s - length r) \<le> g" for g
      proof -
        from shorter that obtain g' where g: "g = Suc g'" and "2 * (length s - length r) \<le> Suc g'"
          by (rule fuel_pred)
        with l1 l2 res have "2 * (length s - length r1) \<le> g'"
          by auto
        then have "parse_value g' s = Some (x, r1)"
          by (rule enough1)
        with sk True res g show ?thesis by simp
      qed
      with shorter show ?thesis by blast
    next
      case False
      with pe pv sk obtain xs where comma: "d = CHR '',''"
        and rest: "parse_elements f r2 = Some (xs, r)" and vs: "vs = x # xs"
        by (auto simp: cons_result_def split: if_splits)
      from IHE [OF rest] have l3: "length r < length r2"
        and enough2: "\<And>g. 2 * (length r2 - length r) \<le> g \<Longrightarrow> parse_elements g r2 = Some (xs, r)"
        by blast+
      from l1 l2 l3 have shorter: "length r < length s"
        by simp
      have "parse_elements g s = Some (vs, r)" if "2 * (length s - length r) \<le> g" for g
      proof -
        from shorter that obtain g' where g: "g = Suc g'" and "2 * (length s - length r) \<le> Suc g'"
          by (rule fuel_pred)
        with l1 l2 l3 have "2 * (length s - length r1) \<le> g'" and "2 * (length r2 - length r) \<le> g'"
          by linarith+
        then have "parse_value g' s = Some (x, r1)" and "parse_elements g' r2 = Some (xs, r)"
          by (simp_all add: enough1 enough2)
        with sk False comma vs g show ?thesis by (simp add: cons_result_def)
      qed
      with shorter show ?thesis by blast
    qed
  qed
  have M: "length r < length s \<and>
      (\<forall>g. 2 * (length s - length r) \<le> g \<longrightarrow> parse_members g s = Some (ms, r))"
    if pm: "parse_members (Suc f) s = Some (ms, r)" for s ms r
  proof -
    from pm obtain q s1 where sk0: "skip_ws s = q # s1"
      by (auto split: list.splits)
    then have l0: "length s1 < length s"
      by (rule skip_ws_Cons_shorter)
    from pm sk0 have q: "q = CHR 0x22"
      by (auto split: if_splits)
    from pm sk0 q obtain k s2 where key: "parse_string_chars s1 = Some (k, s2)"
      by (auto split: option.splits)
    then have lk: "length s2 < length s1"
      by (rule parse_string_chars_shorter)
    from pm sk0 q key obtain c s3 where sk1: "skip_ws s2 = c # s3"
      by (auto split: list.splits)
    then have lc: "length s3 < length s2"
      by (rule skip_ws_Cons_shorter)
    from pm sk0 q key sk1 have c: "c = CHR '':''"
      by (auto split: if_splits)
    from pm sk0 q key sk1 c obtain x r1 where pv: "parse_value f s3 = Some (x, r1)"
      by (auto split: option.splits)
    from IHV [OF pv] have l1: "length r1 < length s3"
      and enough1: "\<And>g. 2 * (length s3 - length r1) \<le> g \<Longrightarrow> parse_value g s3 = Some (x, r1)"
      by blast+
    from pm sk0 q key sk1 c pv obtain d r2 where sk: "skip_ws r1 = d # r2"
      by (auto split: list.splits)
    then have l2: "length r2 < length r1"
      by (rule skip_ws_Cons_shorter)
    show ?thesis
    proof (cases "d = CHR ''}''")
      case True
      with pm sk0 q key sk1 c pv sk have res: "ms = [(k, x)]" "r = r2"
        by auto
      with l0 lk lc l1 l2 have shorter: "length r < length s"
        by simp
      have "parse_members g s = Some (ms, r)" if "2 * (length s - length r) \<le> g" for g
      proof -
        from shorter that obtain g' where g: "g = Suc g'" and "2 * (length s - length r) \<le> Suc g'"
          by (rule fuel_pred)
        with l0 lk lc l1 l2 res have "2 * (length s3 - length r1) \<le> g'"
          by auto
        then have "parse_value g' s3 = Some (x, r1)"
          by (rule enough1)
        with sk0 q key sk1 c sk True res g show ?thesis by simp
      qed
      with shorter show ?thesis by blast
    next
      case False
      with pm sk0 q key sk1 c pv sk obtain xs where comma: "d = CHR '',''"
        and rest: "parse_members f r2 = Some (xs, r)" and ms: "ms = (k, x) # xs"
        by (auto simp: cons_result_def split: if_splits)
      from IHM [OF rest] have l3: "length r < length r2"
        and enough2: "\<And>g. 2 * (length r2 - length r) \<le> g \<Longrightarrow> parse_members g r2 = Some (xs, r)"
        by blast+
      from l0 lk lc l1 l2 l3 have shorter: "length r < length s"
        by simp
      have "parse_members g s = Some (ms, r)" if "2 * (length s - length r) \<le> g" for g
      proof -
        from shorter that obtain g' where g: "g = Suc g'" and "2 * (length s - length r) \<le> Suc g'"
          by (rule fuel_pred)
        with l0 lk lc l1 l2 l3 have "2 * (length s3 - length r1) \<le> g'"
          and "2 * (length r2 - length r) \<le> g'"
          by linarith+
        then have "parse_value g' s3 = Some (x, r1)" and "parse_members g' r2 = Some (xs, r)"
          by (simp_all add: enough1 enough2)
        with sk0 q key sk1 c sk False comma ms g show ?thesis by (simp add: cons_result_def)
      qed
      with shorter show ?thesis by blast
    qed
  qed
  from V E M show ?case by blast
qed

lemma JSON_parse_any_fuel:
  assumes "parse_value f s = Some (v, r)" and "skip_ws r = []"
  shows "JSON_parse s = Some v"
proof -
  from parse_fuel [of f s v r] assms(1)
  have enough: "\<And>g. 2 * (length s - length r) \<le> g \<Longrightarrow> parse_value g s = Some (v, r)"
    by blast
  have "2 * (length s - length r) \<le> Suc (2 * length s)"
    by simp
  then have "parse_value (Suc (2 * length s)) s = Some (v, r)"
    by (rule enough)
  with assms(2) show ?thesis
    by (simp add: JSON_parse_def del: parse_value.simps)
qed

subsection \<open>Writing the store and reading it back\<close>

lemma hex_val_hex_digit: "d < 16 \<Longrightarrow> hex_val (hex_digit d) = Some d"
proof -
  have all: "\<forall>d \<in> set [0..<16]. hex_val (hex_digit d) = Some d"
    by code_simp
  assume "d < 16"
  then have "d \<in> set [0..<16]" by simp
  with all show ?thesis by blast
qed

lemma hex4_control:
  assumes "k < 32"
  shows "hex4 (CHR ''0'') (CHR ''0'') (hex_digit (k div 16)) (hex_digit (k mod 16)) = Some k"
proof -
  have z: "hex_val (CHR ''0'') = Some 0" by code_simp
  from assms have "k div 16 < 16" by simp
  then have hi: "hex_val (hex_digit (k div 16)) = Some (k div 16)" by (rule hex_val_hex_digit)
  have lo: "hex_val (hex_digit (k mod 16)) = Some (k mod 16)" by (rule hex_val_hex_digit) simp
  show ?thesis by (simp add: hex4_def z hi lo)
qed

lemma parse_escape_char:
  "parse_string_chars (escape_char c @ rest) = cons_result c (parse_string_chars rest)"
proof -
  consider (short) "c = CHR 0x22 \<or> c = CHR 0x5C \<or> c = CHR 0x08 \<or> c = CHR 0x0C \<or>
       c = CHR 0x0A \<or> c = CHR 0x0D \<or> c = CHR 0x09"
    | (control) "c \<noteq> CHR 0x22" "c \<noteq> CHR 0x5C" "c \<noteq> CHR 0x08" "c \<noteq> CHR 0x0C"
       "c \<noteq> CHR 0x0A" "c \<noteq> CHR 0x0D" "c \<noteq> CHR 0x09" "(of_char c :: nat) < 32"
    | (plain) "c \<noteq> CHR 0x22" "c \<noteq> CHR 0x5C" "c \<noteq> CHR 0x08" "c \<noteq> CHR 0x0C"
       "c \<noteq> CHR 0x0A" "c \<noteq> CHR 0x0D" "c \<noteq> CHR 0x09" "\<not> (of_char c :: nat) < 32"
    by blast
  then show ?thesis
  proof cases
    case short
    then show ?thesis
      by (elim disjE) (simp_all add: escape_char_def unescape_def)
  next
    case control
    then show ?thesis
      by (simp add: escape_char_def hex4_control)
  next
    case plain
    then show ?thesis
      by (simp add: escape_char_def)
  qed
qed

lemma parse_escaped_string:
  "parse_string_chars (concat (map escape_char s) @ CHR 0x22 # rest) = Some (s, rest)"
  by (induction s) (simp_all add: parse_escape_char cons_result_def)

lemma skip_ws_no_ws: "\<not> is_json_ws c \<Longrightarrow> skip_ws (c # cs) = c # cs"
  by (simp add: skip_ws_def)

lemma not_ws_punctuation:
  "\<not> is_json_ws (CHR 0x22)" "\<not> is_json_ws (CHR ''{'')" "\<not> is_json_ws (CHR ''}'')"
  "\<not> is_json_ws (CHR ''['')" "\<not> is_json_ws (CHR '']'')" "\<not> is_json_ws (CHR '':'')"
  "\<not> is_json_ws (CHR '','')" "\<not> is_json_ws (CHR ''t'')" "\<not> is_json_ws (CHR ''f'')"
  by (simp_all add: is_json_ws_def)

lemma parse_value_quote:
  "parse_value (Suc f) (quote s @ rest) = Some (JString s, rest)"
  by (simp add: quote_def skip_ws_no_ws not_ws_punctuation parse_escaped_string)

lemma parse_value_bool:
  "\<not> is_json_ws c \<Longrightarrow> parse_value (Suc f) (stringify_bool b @ c # rest) = Some (JBool b, c # rest)"
  by (simp add: stringify_bool_def skip_ws_no_ws not_ws_punctuation)

lemma parse_key:
  "parse_members (Suc f) (quote k @ CHR '':'' # inp) =
     (case parse_value f inp of
        None \<Rightarrow> None
      | Some (v, r) \<Rightarrow>
          (case skip_ws r of
             [] \<Rightarrow> None
           | d # r1 \<Rightarrow>
               if d = CHR ''}'' then Some ([(k, v)], r1)
               else if d = CHR '','' then cons_result (k, v) (parse_members f r1)
               else None))"
  by (simp add: quote_def skip_ws_no_ws not_ws_punctuation parse_escaped_string)

lemma parse_member_string:
  "parse_members (Suc (Suc f)) (quote k @ CHR '':'' # quote v @ CHR '','' # inp) =
     cons_result (k, JString v) (parse_members (Suc f) inp)"
  by (simp only: parse_key parse_value_quote)
    (simp add: skip_ws_no_ws not_ws_punctuation)

lemma parse_member_bool:
  "parse_members (Suc (Suc f)) (quote k @ CHR '':'' # stringify_bool b @ CHR '','' # inp) =
     cons_result (k, JBool b) (parse_members (Suc f) inp)"
  by (simp only: parse_key parse_value_bool [OF not_ws_punctuation(7)])
    (simp add: skip_ws_no_ws not_ws_punctuation)

lemma parse_member_last:
  "parse_members (Suc (Suc f)) (quote k @ CHR '':'' # quote v @ CHR ''}'' # rest) =
     Some ([(k, JString v)], rest)"
  by (simp only: parse_key parse_value_quote)
    (simp add: skip_ws_no_ws not_ws_punctuation)

lemma stringify_note_unfold:
  "stringify_note n @ rest =
     CHR ''{'' #
     quote ''id'' @ CHR '':'' # quote (id_note n) @ CHR '','' #
     quote ''title'' @ CHR '':'' # quote (title n) @ CHR '','' #
     quote ''content'' @ CHR '':'' # quote (content n) @ CHR '','' #
     quote ''createdAt'' @ CHR '':'' # quote (createdAt n) @ CHR '','' #
     quote ''updatedAt'' @ CHR '':'' # quote (updatedAt n) @ CHR '','' #
     quote ''pinned'' @ CHR '':'' # stringify_bool (pinned n) @ CHR '','' #
     quote ''color'' @ CHR '':'' # quote (color n) @ CHR ''}'' # rest"
  by (simp add: stringify_note_def stringify_object_def)

lemma parse_members_note:
  "parse_members (Suc (Suc (Suc (Suc (Suc (Suc (Suc (Suc f))))))))
     (quote ''id'' @ CHR '':'' # quote (id_note n) @ CHR '','' #
      quote ''title'' @ CHR '':'' # quote (title n) @ CHR '','' #
      quote ''content'' @ CHR '':'' # quote (content n) @ CHR '','' #
      quote ''createdAt'' @ CHR '':'' # quote (createdAt n) @ CHR '','' #
      quote ''updatedAt'' @ CHR '':'' # quote (updatedAt n) @ CHR '','' #
      quote ''pinned'' @ CHR '':'' # stringify_bool (pinned n) @ CHR '','' #
      quote ''color'' @ CHR '':'' # quote (color n) @ CHR ''}'' # rest) =
   Some ([(''id'', JString (id_note n)),
          (''title'', JString (title n)),
          (''content'', JString (content n)),
          (''createdAt'', JString (createdAt n)),
          (''updatedAt'', JString (updatedAt n)),
          (''pinned'', JBool (pinned n)),
          (''color'', JString (color n))], rest)"
  by (simp only: parse_member_string parse_member_bool parse_member_last)
    (simp add: cons_result_def)

lemma parse_value_open_brace:
  "parse_value (Suc g) (CHR ''{'' # quote k @ inp) =
     map_option (\<lambda>(ms, r). (JObject ms, r)) (parse_members g (quote k @ inp))"
  by (simp add: quote_def skip_ws_no_ws not_ws_punctuation)

lemma parse_value_note:
  "parse_value (Suc (Suc (Suc (Suc (Suc (Suc (Suc (Suc (Suc f)))))))))
     (stringify_note n @ rest) = Some (note_json n, rest)"
  unfolding stringify_note_unfold
  by (simp only: parse_value_open_brace parse_members_note note_json_def) simp

lemma parse_value_note_fuel:
  assumes "9 \<le> f"
  shows "parse_value f (stringify_note n @ rest) = Some (note_json n, rest)"
proof -
  from assms obtain g where "f = 9 + g"
    by (auto simp: le_iff_add)
  then have "f = Suc (Suc (Suc (Suc (Suc (Suc (Suc (Suc (Suc g))))))))"
    by linarith
  then show ?thesis by (simp only: parse_value_note)
qed

lemma parse_elements_notes:
  "length ns + 10 \<le> f \<Longrightarrow>
   parse_elements f (join '','' (map stringify_note (n # ns)) @ CHR '']'' # rest) =
     Some (map note_json (n # ns), rest)"
proof (induction ns arbitrary: n f)
  case Nil
  then obtain g where f: "f = Suc g" and g: "9 \<le> g"
    by (cases f) auto
  show ?case
    by (simp add: f parse_value_note_fuel [OF g] skip_ws_no_ws not_ws_punctuation)
next
  case (Cons m ns)
  then obtain g where f: "f = Suc g" and g: "9 \<le> g" and g': "length ns + 10 \<le> g"
    by (cases f) auto
  have "parse_elements (Suc g)
      (stringify_note n @ CHR '','' # join '','' (map stringify_note (m # ns)) @ CHR '']'' # rest) =
      cons_result (note_json n)
        (parse_elements g (join '','' (map stringify_note (m # ns)) @ CHR '']'' # rest))"
    by (simp add: parse_value_note_fuel [OF g] skip_ws_no_ws not_ws_punctuation)
  also have "\<dots> = Some (map note_json (n # m # ns), rest)"
    using Cons.IH [OF g', of m] by (simp add: cons_result_def)
  finally show ?case by (simp add: f)
qed

lemma stringify_note_starts:
  "\<exists>t. stringify_note n = CHR ''{'' # t"
  by (simp add: stringify_note_def stringify_object_def)

lemma length_join_notes:
  "length ms + 10 \<le> length (join '','' (map stringify_note (n # ms)))"
proof (induction ms arbitrary: n)
  case Nil
  show ?case by (simp add: stringify_note_def stringify_object_def quote_def)
next
  case (Cons m ms)
  from Cons [of m] show ?case by simp
qed

lemma JSON_parse_stringify:
  "JSON_parse (JSON_stringify ns) = Some (JArray (map note_json ns))"
proof (cases ns)
  case Nil
  have "JSON_parse (JSON_stringify []) = Some (JArray [])"
    by code_simp
  with Nil show ?thesis by simp
next
  case (Cons n ms)
  define body where "body = join '','' (map stringify_note (n # ms))"
  obtain t where t: "stringify_note n = CHR ''{'' # t"
    using stringify_note_starts by blast
  have body_start: "\<exists>u. body @ '']'' = CHR ''{'' # u"
    unfolding body_def by (cases ms) (simp_all add: t)
  then obtain u where u: "body @ '']'' = CHR ''{'' # u" by blast
  have s: "JSON_stringify (n # ms) = CHR ''['' # body @ '']''"
    by (simp add: JSON_stringify_def stringify_array_def body_def)
  have "length ms + 10 \<le> length body"
    unfolding body_def by (rule length_join_notes)
  then have fuel: "length ms + 10 \<le> 2 * length (CHR ''['' # body @ '']'')"
    by simp
  have elems: "parse_elements (2 * length (CHR ''['' # body @ '']'')) (body @ CHR '']'' # []) =
      Some (map note_json (n # ms), [])"
    unfolding body_def using fuel [unfolded body_def] by (rule parse_elements_notes)
  have pv: "parse_value (Suc (2 * length (CHR ''['' # body @ '']''))) (CHR ''['' # body @ '']'') =
      Some (JArray (map note_json (n # ms)), [])"
    using elems u
    by (simp add: skip_ws_no_ws not_ws_punctuation del: parse_elements.simps)
  show ?thesis
    unfolding Cons JSON_parse_def s
    by (simp only: pv) (simp add: skip_ws_def)
qed

lemma note_of_json_note_json: "note_of_json (note_json n) = Some n"
  by (simp add: note_of_json_def note_json_def get_prop_def)

text \<open>
  C9. For every list of notes, \<^verbatim>\<open>JSON.parse\<close> reads the text that
  \<^verbatim>\<open>JSON.stringify\<close> writes for it as the array of the notes' JSON values, so
  \<open>getInitialNotes\<close> on the storage that the persistence effect has written returns this
  array, and each of its elements, read as a note, is the note it was written from, field
  for field.
\<close>

theorem storage_roundtrip:
  "JSON_parse (JSON_stringify ns) = Some (JArray (map note_json ns)) \<and>
   getInitialNotes JSON_parse (Window (Inr (persisted ns))) = Inr (map note_json ns) \<and>
   map note_of_json (map note_json ns) = map Some ns"
proof -
  have "JSON_stringify ns \<noteq> []"
    by (simp add: JSON_stringify_def stringify_array_def)
  then show ?thesis
    by (simp add: getInitialNotes_def try_block_def persisted_def JSON_parse_stringify
        note_of_json_note_json comp_def)
qed

theorem storage_roundtrip_witness:
  "getInitialNotes JSON_parse (Window (Inr (persisted (notes_st store0)))) =
     Inr [note_json note_a, note_json note_b, note_json note_c] \<and>
   map note_of_json [note_json note_a, note_json note_b, note_json note_c] =
     [Some note_a, Some note_b, Some note_c]"
proof -
  have s: "notes_st store0 = [note_a, note_b, note_c]"
    by (simp add: store0_def)
  from storage_roundtrip [of "notes_st store0"] show ?thesis
    unfolding s by simp
qed

end
